theory Spec2Isabelle
  imports Complex_Main "HOL-Library.Product_Lexorder" "HOL-Library.List_Lexorder"
    "HOL-Library.Char_ord"
begin

section \<open>Round-Robin timeline simulator (app/core/scheduler.py)\<close>

text \<open>
  Process identifiers are Python strings; the simulator only compares and sorts them, so
  the model is polymorphic in a linearly ordered identifier type and is instantiated with
  \<open>string\<close> (ordered lexicographically by character code, as Python orders \<open>str\<close>)
  in the concrete runs. Times, bursts and quanta are Python integers (the request schema
  declares them \<open>int\<close>), on which \<open>int(round(x))\<close> is the identity.
\<close>

definition dict_get :: "('k \<rightharpoonup> 'v) \<Rightarrow> 'k \<Rightarrow> 'v \<Rightarrow> 'v" where
  "dict_get m k d = (case m k of None \<Rightarrow> d | Some v \<Rightarrow> v)"

type_synonym 'p slice = "'p \<times> int \<times> int"

record 'p rr_state =
  rem :: "'p \<rightharpoonup> int"
  future_idx :: nat
  now :: int
  timeline :: "'p slice list"
  ready :: "'p list"

text \<open>The three dict comprehensions that coerce the inputs, keyed by \<open>processes\<close>.\<close>

definition coerce_rem :: "'p list \<Rightarrow> ('p \<rightharpoonup> int) \<Rightarrow> ('p \<rightharpoonup> int)" where
  "coerce_rem processes bursts =
     (\<lambda>p. if p \<in> set processes then Some (max 0 (dict_get bursts p 0)) else None)"

definition coerce_arr :: "'p list \<Rightarrow> ('p \<rightharpoonup> int) \<Rightarrow> ('p \<rightharpoonup> int)" where
  "coerce_arr processes arrivals =
     (\<lambda>p. if p \<in> set processes then Some (dict_get arrivals p 0) else None)"

definition coerce_qmap :: "'p list \<Rightarrow> ('p \<rightharpoonup> int) \<Rightarrow> ('p \<rightharpoonup> int)" where
  "coerce_qmap processes quanta =
     (\<lambda>p. if p \<in> set processes then Some (max 1 (dict_get quanta p 1)) else None)"

text \<open>\<open>future = sorted([(arr[p], p) for p in processes])\<close>, ordered by time, then id.\<close>

definition build_future :: "'p::linorder list \<Rightarrow> ('p \<rightharpoonup> int) \<Rightarrow> (int \<times> 'p) list" where
  "build_future processes arr = sort (map (\<lambda>p. (dict_get arr p 0, p)) processes)"

text \<open>
  The nested helper \<open>push_arrivals_up_to(t)\<close>: a while loop over \<open>future_idx\<close>;
  \<open>admit_next\<close> is its body.
\<close>

definition admit_next :: "(int \<times> 'p) list \<Rightarrow> 'p rr_state \<Rightarrow> 'p rr_state" where
  "admit_next future s =
     (let pid = snd (future ! future_idx s);
          s1 = (if dict_get (rem s) pid 0 > 0 \<and> pid \<notin> set (ready s)
                then s\<lparr>ready := ready s @ [pid]\<rparr> else s)
      in s1\<lparr>future_idx := future_idx s + 1\<rparr>)"

function push_arrivals_up_to :: "(int \<times> 'p) list \<Rightarrow> int \<Rightarrow> 'p rr_state \<Rightarrow> 'p rr_state" where
  "push_arrivals_up_to future t s =
     (if future_idx s < length future \<and> fst (future ! future_idx s) \<le> t
      then push_arrivals_up_to future t (admit_next future s)
      else s)"
  by pat_completeness auto
termination
  by (relation "measure (\<lambda>(future, t, s). length future - future_idx s)")
    (auto simp: admit_next_def Let_def)

text \<open>\<open>now = max(now, future[future_idx][0]); push_arrivals_up_to(now)\<close>.\<close>

definition jump_to_next :: "(int \<times> 'p) list \<Rightarrow> 'p rr_state \<Rightarrow> 'p rr_state" where
  "jump_to_next future s =
     (let s1 = s\<lparr>now := max (now s) (fst (future ! future_idx s))\<rparr>
      in push_arrivals_up_to future (now s1) s1)"

text \<open>The defensive re-admission scan \<open>for p in processes: ...\<close>.\<close>

fun rescan :: "'p list \<Rightarrow> ('p \<rightharpoonup> int) \<Rightarrow> 'p rr_state \<Rightarrow> 'p rr_state" where
  "rescan [] arr s = s"
| "rescan (p # ps) arr s =
     rescan ps arr
       (if dict_get (rem s) p 0 > 0 \<and> dict_get arr p 0 \<le> now s \<and> p \<notin> set (ready s)
        then s\<lparr>ready := ready s @ [p]\<rparr> else s)"

text \<open>
  The idle jump that closes both branches of the loop body:
  \<open>if not ready and future_idx < len(future): now = max(...); push_arrivals_up_to(now)\<close>.
\<close>

definition idle_jump :: "(int \<times> 'p) list \<Rightarrow> 'p rr_state \<Rightarrow> 'p rr_state" where
  "idle_jump future s =
     (if ready s = [] \<and> future_idx s < length future then jump_to_next future s else s)"

text \<open>The branch \<open>if rem.get(pid, 0) <= 0: ...; continue\<close> (the head is already popped).\<close>

definition skip_finished :: "(int \<times> 'p) list \<Rightarrow> 'p rr_state \<Rightarrow> 'p rr_state" where
  "skip_finished future s = idle_jump future (push_arrivals_up_to future (now s) s)"

text \<open>The rest of the body: emit one slice for the popped \<open>pid\<close>, then refill the queue.\<close>

definition emit_slice :: "('p \<rightharpoonup> int) \<Rightarrow> 'p \<Rightarrow> 'p rr_state \<Rightarrow> 'p rr_state" where
  "emit_slice qmap pid s =
     (let q = dict_get qmap pid 1;
          use = max 1 (min q (dict_get (rem s) pid 0));
          start = now s;
          end = start + use
      in s\<lparr>timeline := timeline s @ [(pid, start, end)],
           rem := (rem s)(pid \<mapsto> dict_get (rem s) pid 0 - use),
           now := end\<rparr>)"

definition requeue :: "'p \<Rightarrow> 'p rr_state \<Rightarrow> 'p rr_state" where
  "requeue pid s = (if dict_get (rem s) pid 0 > 0 then s\<lparr>ready := ready s @ [pid]\<rparr> else s)"

definition run_slice ::
  "'p list \<Rightarrow> ('p \<rightharpoonup> int) \<Rightarrow> ('p \<rightharpoonup> int) \<Rightarrow> (int \<times> 'p) list \<Rightarrow> 'p \<Rightarrow> 'p rr_state
     \<Rightarrow> 'p rr_state" where
  "run_slice processes arr qmap future pid s =
     (let s1 = emit_slice qmap pid s;
          s2 = push_arrivals_up_to future (now s1) s1;
          s3 = requeue pid s2
      in if ready s3 = [] then idle_jump future (rescan processes arr s3) else s3)"

text \<open>One iteration of the main \<open>while ready:\<close> loop, starting with \<open>ready.popleft()\<close>.\<close>

definition rr_body ::
  "'p list \<Rightarrow> ('p \<rightharpoonup> int) \<Rightarrow> ('p \<rightharpoonup> int) \<Rightarrow> (int \<times> 'p) list \<Rightarrow> 'p rr_state \<Rightarrow> 'p rr_state" where
  "rr_body processes arr qmap future s =
     (case ready s of
        [] \<Rightarrow> s
      | pid # rest \<Rightarrow>
          let s0 = s\<lparr>ready := rest\<rparr> in
          if dict_get (rem s0) pid 0 \<le> 0 then skip_finished future s0
          else run_slice processes arr qmap future pid s0)"

text \<open>
  Termination of the main loop is shown for every state, reachable or not, by a
  lexicographic measure: the work still owed to every process that can ever be queued,
  then the queue length plus the number of arrivals not yet consumed.
\<close>

definition pool :: "'p list \<Rightarrow> (int \<times> 'p) list \<Rightarrow> 'p rr_state \<Rightarrow> 'p set" where
  "pool processes future s = set processes \<union> snd ` set future \<union> set (ready s)"

definition work :: "'p list \<Rightarrow> (int \<times> 'p) list \<Rightarrow> 'p rr_state \<Rightarrow> nat" where
  "work processes future s = (\<Sum>p \<in> pool processes future s. nat (dict_get (rem s) p 0))"

definition backlog :: "(int \<times> 'p) list \<Rightarrow> 'p rr_state \<Rightarrow> nat" where
  "backlog future s = length (ready s) + (length future - future_idx s)"

subsection \<open>Frame lemmas for the queue helpers and termination of the main loop\<close>

declare push_arrivals_up_to.simps [simp del]

lemma admit_next_fields [simp]:
  "rem (admit_next f s) = rem s" "now (admit_next f s) = now s"
  "timeline (admit_next f s) = timeline s" "future_idx (admit_next f s) = Suc (future_idx s)"
  by (simp_all add: admit_next_def Let_def)

lemma push_fields [simp]:
  "rem (push_arrivals_up_to f t s) = rem s" "now (push_arrivals_up_to f t s) = now s"
  "timeline (push_arrivals_up_to f t s) = timeline s"
  by (induction f t s rule: push_arrivals_up_to.induct; subst push_arrivals_up_to.simps; simp)+

lemma push_idx_mono: "future_idx s \<le> future_idx (push_arrivals_up_to f t s)"
  by (induction f t s rule: push_arrivals_up_to.induct; subst push_arrivals_up_to.simps)
     (auto dest: Suc_leD)

lemma admit_next_ready_subset:
  "future_idx s < length f \<Longrightarrow> set (ready (admit_next f s)) \<subseteq> set (ready s) \<union> snd ` set f"
  by (auto simp: admit_next_def Let_def)

lemma push_ready_subset:
  "set (ready (push_arrivals_up_to f t s)) \<subseteq> set (ready s) \<union> snd ` set f"
proof (induction f t s rule: push_arrivals_up_to.induct)
  case (1 future t s)
  show ?case
    using 1 admit_next_ready_subset[of s future]
    by (subst push_arrivals_up_to.simps) auto
qed

lemma push_backlog: "backlog f (push_arrivals_up_to f t s) \<le> backlog f s"
proof (induction f t s rule: push_arrivals_up_to.induct)
  case (1 future t s)
  have "future_idx s < length future \<Longrightarrow> backlog future (admit_next future s) \<le> backlog future s"
    by (auto simp: admit_next_def Let_def backlog_def)
  then show ?case
    using 1 by (subst push_arrivals_up_to.simps) auto
qed

lemma jump_fields [simp]:
  "rem (jump_to_next f s) = rem s" "timeline (jump_to_next f s) = timeline s"
  by (simp_all add: jump_to_next_def Let_def)

lemma jump_ready_subset: "set (ready (jump_to_next f s)) \<subseteq> set (ready s) \<union> snd ` set f"
  using push_ready_subset[of f _ "s\<lparr>now := max (now s) (fst (f ! future_idx s))\<rparr>"]
  by (simp add: jump_to_next_def Let_def)

lemma jump_backlog: "backlog f (jump_to_next f s) \<le> backlog f s"
  using push_backlog[of f _ "s\<lparr>now := max (now s) (fst (f ! future_idx s))\<rparr>"]
  by (simp add: jump_to_next_def Let_def backlog_def)

lemma idle_jump_fields [simp]:
  "rem (idle_jump f s) = rem s" "timeline (idle_jump f s) = timeline s"
  by (simp_all add: idle_jump_def)

lemma idle_jump_ready_subset: "set (ready (idle_jump f s)) \<subseteq> set (ready s) \<union> snd ` set f"
  using jump_ready_subset[of f s] by (auto simp: idle_jump_def)

lemma idle_jump_backlog: "backlog f (idle_jump f s) \<le> backlog f s"
  using jump_backlog[of f s] by (simp add: idle_jump_def)

lemma rescan_fields [simp]:
  "rem (rescan ps arr s) = rem s" "now (rescan ps arr s) = now s"
  "timeline (rescan ps arr s) = timeline s" "future_idx (rescan ps arr s) = future_idx s"
  by (induction ps arbitrary: s; simp)+

lemma rescan_ready_subset: "set (ready (rescan ps arr s)) \<subseteq> set (ready s) \<union> set ps"
proof (induction ps arbitrary: s)
  case Nil
  show ?case by simp
next
  case (Cons p ps)
  show ?case
    using Cons[of s] Cons[of "s\<lparr>ready := ready s @ [p]\<rparr>"] by auto
qed

lemma skip_fields [simp]:
  "rem (skip_finished f s) = rem s" "timeline (skip_finished f s) = timeline s"
  by (simp_all add: skip_finished_def)

lemma skip_ready_subset: "set (ready (skip_finished f s)) \<subseteq> set (ready s) \<union> snd ` set f"
  using idle_jump_ready_subset[of f "push_arrivals_up_to f (now s) s"]
    push_ready_subset[of f "now s" s]
  by (auto simp: skip_finished_def)

lemma skip_backlog: "backlog f (skip_finished f s) \<le> backlog f s"
  using idle_jump_backlog[of f "push_arrivals_up_to f (now s) s"] push_backlog[of f "now s" s]
  by (simp add: skip_finished_def)

lemma emit_fields [simp]:
  "ready (emit_slice q pid s) = ready s" "future_idx (emit_slice q pid s) = future_idx s"
  by (simp_all add: emit_slice_def Let_def)

lemma run_slice_rem [simp]:
  "rem (run_slice ps arr q f pid s) = rem (emit_slice q pid s)"
  by (simp add: run_slice_def Let_def requeue_def)

lemma requeue_ready_subset: "set (ready (requeue pid s)) \<subseteq> insert pid (set (ready s))"
  by (auto simp: requeue_def)

lemma run_slice_ready_subset:
  "set (ready (run_slice ps arr q f pid s)) \<subseteq> insert pid (set (ready s) \<union> snd ` set f \<union> set ps)"
proof -
  let ?s1 = "emit_slice q pid s"
  let ?s2 = "push_arrivals_up_to f (now ?s1) ?s1"
  let ?s3 = "requeue pid ?s2"
  have a: "set (ready ?s3) \<subseteq> insert pid (set (ready s) \<union> snd ` set f)"
    using requeue_ready_subset[of pid ?s2] push_ready_subset[of f "now ?s1" ?s1] by auto
  have b: "set (ready (idle_jump f (rescan ps arr ?s3)))
             \<subseteq> set (ready ?s3) \<union> set ps \<union> snd ` set f"
    using idle_jump_ready_subset[of f "rescan ps arr ?s3"] rescan_ready_subset[of ps arr ?s3]
    by auto
  show ?thesis
    using a b by (auto simp: run_slice_def Let_def)
qed


lemma work_mono:
  assumes "rem s' = rem s" "set (ready s') \<subseteq> pool ps f s"
  shows "work ps f s' \<le> work ps f s"
proof -
  have "pool ps f s' \<subseteq> pool ps f s" using assms(2) by (auto simp: pool_def)
  moreover have "finite (pool ps f s)" by (simp add: pool_def)
  ultimately show ?thesis
    unfolding work_def assms(1) by (intro sum_mono2) auto
qed

lemma work_emit:
  assumes "pid \<in> pool ps f s" "0 < dict_get (rem s) pid 0"
    "rem s' = rem (emit_slice q pid s)" "set (ready s') \<subseteq> pool ps f s"
  shows "work ps f s' < work ps f s"
proof -
  let ?g = "\<lambda>p. nat (dict_get (rem s) p 0)"
  let ?g' = "\<lambda>p. nat (dict_get (rem s') p 0)"
  have fin: "finite (pool ps f s)" by (simp add: pool_def)
  have sub: "pool ps f s' \<subseteq> pool ps f s" using assms(4) by (auto simp: pool_def)
  have le: "\<And>p. ?g' p \<le> ?g p"
    using assms(2) by (auto simp: assms(3) emit_slice_def Let_def dict_get_def)
  have lt: "?g' pid < ?g pid"
    using assms(2) by (auto simp: assms(3) emit_slice_def Let_def dict_get_def)
  have "work ps f s' \<le> sum ?g' (pool ps f s)"
    unfolding work_def using fin sub by (intro sum_mono2) auto
  also have "\<dots> < sum ?g (pool ps f s)"
    using fin assms(1) le lt by (intro sum_strict_mono_ex1) auto
  finally show ?thesis by (simp add: work_def)
qed

lemma rr_body_decreases:
  assumes "ready s \<noteq> []"
  shows "work ps f (rr_body ps arr q f s) < work ps f s
     \<or> (work ps f (rr_body ps arr q f s) = work ps f s
        \<and> backlog f (rr_body ps arr q f s) < backlog f s)"
proof -
  obtain pid rest where rd: "ready s = pid # rest" using assms by (cases "ready s") auto
  let ?s0 = "s\<lparr>ready := rest\<rparr>"
  have pid_in: "pid \<in> pool ps f s" by (simp add: pool_def rd)
  have rest_in: "set rest \<subseteq> pool ps f s" by (auto simp: pool_def rd)
  show ?thesis
  proof (cases "dict_get (rem s) pid 0 \<le> 0")
    case True
    then have body: "rr_body ps arr q f s = skip_finished f ?s0"
      by (simp add: rr_body_def rd)
    have "set (ready (skip_finished f ?s0)) \<subseteq> pool ps f s"
      using skip_ready_subset[of f ?s0] rest_in by (auto simp: pool_def)
    then have w: "work ps f (skip_finished f ?s0) \<le> work ps f s"
      by (intro work_mono) auto
    have "backlog f (skip_finished f ?s0) \<le> backlog f ?s0" by (rule skip_backlog)
    also have "\<dots> < backlog f s" by (simp add: backlog_def rd)
    finally show ?thesis using w body by auto
  next
    case False
    then have body: "rr_body ps arr q f s = run_slice ps arr q f pid ?s0"
      by (simp add: rr_body_def rd)
    have "set (ready (run_slice ps arr q f pid ?s0)) \<subseteq> pool ps f s"
      using run_slice_ready_subset[of ps arr q f pid ?s0] rest_in pid_in by (auto simp: pool_def)
    moreover have "rem (run_slice ps arr q f pid ?s0) = rem (emit_slice q pid s)"
      by (simp add: emit_slice_def Let_def)
    ultimately have "work ps f (run_slice ps arr q f pid ?s0) < work ps f s"
      using pid_in False by (intro work_emit[where pid=pid and q=q]) auto
    then show ?thesis using body by simp
  qed
qed

text \<open>The main loop \<open>while ready: ...\<close>.\<close>

function rr_loop ::
  "'p list \<Rightarrow> ('p \<rightharpoonup> int) \<Rightarrow> ('p \<rightharpoonup> int) \<Rightarrow> (int \<times> 'p) list \<Rightarrow> 'p rr_state \<Rightarrow> 'p rr_state" where
  "rr_loop processes arr qmap future s =
     (if ready s = [] then s
      else rr_loop processes arr qmap future (rr_body processes arr qmap future s))"
  by pat_completeness auto

termination
proof (relation "measures [\<lambda>(ps, arr, q, f, s). work ps f s, \<lambda>(ps, arr, q, f, s). backlog f s]")
  show "wf (measures [\<lambda>(ps, arr, q, f, s). work ps f s, \<lambda>(ps, arr, q, f, s). backlog f s])"
    by simp
next
  fix processes :: "'p list" and arr qmap :: "'p \<rightharpoonup> int" and future and s :: "'p rr_state"
  assume "ready s \<noteq> []"
  from rr_body_decreases[OF this, of processes future arr qmap]
  show "((processes, arr, qmap, future, rr_body processes arr qmap future s),
         (processes, arr, qmap, future, s))
        \<in> measures [\<lambda>(ps, arr, q, f, s). work ps f s, \<lambda>(ps, arr, q, f, s). backlog f s]"
    by auto
qed


declare rr_loop.simps [simp del]

text \<open>
  The prologue of \<open>simulate_rr_with_quanta\<close>: admit the arrivals at time 0 and, if
  nothing is ready, jump to the first pending arrival (here without \<open>max\<close>).
\<close>

definition rr_init :: "('p \<rightharpoonup> int) \<Rightarrow> (int \<times> 'p) list \<Rightarrow> 'p rr_state" where
  "rr_init rem0 future =
     (let s0 = \<lparr>rem = rem0, future_idx = 0, now = 0, timeline = [], ready = []\<rparr>;
          s1 = push_arrivals_up_to future (now s0) s0
      in if ready s1 = [] \<and> future_idx s1 < length future
         then (let s2 = s1\<lparr>now := fst (future ! future_idx s1)\<rparr>
               in push_arrivals_up_to future (now s2) s2)
         else s1)"

definition rr_final ::
  "'p::linorder list \<Rightarrow> ('p \<rightharpoonup> int) \<Rightarrow> ('p \<rightharpoonup> int) \<Rightarrow> ('p \<rightharpoonup> int) \<Rightarrow> 'p rr_state" where
  "rr_final processes bursts quanta arrivals =
     (let rem0 = coerce_rem processes bursts;
          arr = coerce_arr processes arrivals;
          qmap = coerce_qmap processes quanta;
          future = build_future processes arr
      in rr_loop processes arr qmap future (rr_init rem0 future))"

definition simulate_rr_with_quanta ::
  "'p::linorder list \<Rightarrow> ('p \<rightharpoonup> int) \<Rightarrow> ('p \<rightharpoonup> int) \<Rightarrow> ('p \<rightharpoonup> int) \<Rightarrow> 'p slice list" where
  "simulate_rr_with_quanta processes bursts quanta arrivals =
     timeline (rr_final processes bursts quanta arrivals)"

subsection \<open>Metrics (\<open>compute_metrics\<close>) and the baseline driver\<close>

text \<open>
  The first loop of \<open>compute_metrics\<close>: last end tick per process, earliest start and
  latest end over all slices.
\<close>

fun scan_timeline ::
  "'p slice list \<Rightarrow> ('p \<rightharpoonup> int) \<times> int option \<times> int \<Rightarrow> ('p \<rightharpoonup> int) \<times> int option \<times> int" where
  "scan_timeline [] acc = acc"
| "scan_timeline ((p, s, e) # rest) (completion, min_start, max_end) =
     scan_timeline rest
       (completion(p \<mapsto> max (dict_get completion p 0) e),
        (case min_start of None \<Rightarrow> Some s | Some m \<Rightarrow> if s < m then Some s else Some m),
        (if e > max_end then e else max_end))"

text \<open>The loop \<open>for p in pids\<close> that fills the waiting and turnaround dicts.\<close>

fun metrics_loop ::
  "'p list \<Rightarrow> ('p \<rightharpoonup> int) \<Rightarrow> ('p \<rightharpoonup> int) \<Rightarrow> ('p \<rightharpoonup> int) \<Rightarrow> ('p \<rightharpoonup> int) \<times> ('p \<rightharpoonup> int)
     \<Rightarrow> ('p \<rightharpoonup> int) \<times> ('p \<rightharpoonup> int)" where
  "metrics_loop [] initial_bursts arrivals completion acc = acc"
| "metrics_loop (p # ps) initial_bursts arrivals completion (waiting, turnaround) =
     (let arr_time = dict_get arrivals p 0;
          bt = dict_get initial_bursts p 0
      in case completion p of
           None \<Rightarrow> metrics_loop ps initial_bursts arrivals completion
                     (waiting(p \<mapsto> 0), turnaround(p \<mapsto> 0))
         | Some cmpl \<Rightarrow>
             (let tat = cmpl - arr_time;
                  wt = tat - bt
              in metrics_loop ps initial_bursts arrivals completion
                   (waiting(p \<mapsto> max 0 wt), turnaround(p \<mapsto> max 0 tat))))"

definition compute_metrics ::
  "'p list \<Rightarrow> ('p \<rightharpoonup> int) \<Rightarrow> 'p slice list \<Rightarrow> ('p \<rightharpoonup> int)
     \<Rightarrow> ('p \<rightharpoonup> int) \<times> ('p \<rightharpoonup> int) \<times> real \<times> int" where
  "compute_metrics pids initial_bursts tml arrivals =
     (let zeros = (\<lambda>p. if p \<in> set pids then Some 0 else None) in
      if pids = [] then (zeros, zeros, 0, 0)
      else if tml = [] then (zeros, zeros, 0, 0)
      else
        (let (completion, min_start, max_end) = scan_timeline tml (Map.empty, None, 0);
             total_time = max_end;
             total_cpu_time = (\<Sum>p \<leftarrow> pids. real_of_int (dict_get initial_bursts p 0));
             (waiting, turnaround) =
                metrics_loop pids initial_bursts arrivals completion (Map.empty, Map.empty);
             cpu_util = (if total_time > 0
                         then total_cpu_time / real_of_int total_time * 100 else 0)
         in (waiting, turnaround, cpu_util, total_time)))"

text \<open>Total length of the slices a process received.\<close>

definition slice_total :: "'p \<Rightarrow> 'p slice list \<Rightarrow> int" where
  "slice_total p tml = (\<Sum>(q, s, e) \<leftarrow> filter (\<lambda>(q, s, e). q = p) tml. e - s)"

text \<open>
  The request models \<open>ProcessInput\<close> and \<open>SystemConfig\<close> (app/models/schemas.py) and
  the part of \<open>simulate_baseline\<close> that produces the timeline and the total time.
\<close>

record process_input =
  pid :: string
  arrival_time :: int
  burst_time :: int
  priority :: "int option"
  pages_count :: "int option"

record system_config =
  total_frames :: int
  page_size :: int
  cpu_quantum :: int
  processes :: "process_input list"

text \<open>A dict comprehension \<open>{k(p): v(p) for p in xs}\<close>: the last entry of a key wins.\<close>

definition dict_of :: "('a \<Rightarrow> 'k) \<Rightarrow> ('a \<Rightarrow> 'v) \<Rightarrow> 'a list \<Rightarrow> ('k \<rightharpoonup> 'v)" where
  "dict_of k v xs = map_of (rev (map (\<lambda>x. (k x, v x)) xs))"

definition baseline_timeline :: "system_config \<Rightarrow> string slice list" where
  "baseline_timeline config =
     (let procs = map pid (processes config);
          initial_bursts = dict_of pid burst_time (processes config);
          arrivals = dict_of pid arrival_time (processes config);
          fixed_quantum = cpu_quantum config;
          quanta = dict_of id (\<lambda>p. fixed_quantum) procs
      in simulate_rr_with_quanta procs initial_bursts quanta arrivals)"

definition baseline_total_time :: "system_config \<Rightarrow> int" where
  "baseline_total_time config =
     (let procs = map pid (processes config);
          initial_bursts = dict_of pid burst_time (processes config);
          arrivals = dict_of pid arrival_time (processes config)
      in case compute_metrics procs initial_bursts (baseline_timeline config) arrivals of
           (waiting_times, turnaround_times, prev_cpu_util, total_time) \<Rightarrow> total_time)"

text \<open>The configuration of the repository's own smoke test (test_scheduler.py).\<close>

definition example_config :: system_config where
  "example_config =
     \<lparr>total_frames = 64, page_size = 4, cpu_quantum = 2,
      processes =
        [\<lparr>pid = ''P1'', arrival_time = 0, burst_time = 8, priority = Some 0, pages_count = Some 100\<rparr>,
         \<lparr>pid = ''P2'', arrival_time = 3, burst_time = 5, priority = Some 0, pages_count = Some 100\<rparr>,
         \<lparr>pid = ''P3'', arrival_time = 5, burst_time = 2, priority = Some 0, pages_count = Some 100\<rparr>]\<rparr>"

subsection \<open>Invariants of the main loop\<close>

text \<open>An invariant of the loop body holds of the final state, where the queue is empty.\<close>

lemma rr_loop_invariant:
  assumes "P s" and "\<And>s. P s \<Longrightarrow> ready s \<noteq> [] \<Longrightarrow> P (rr_body ps arr q f s)"
  shows "P (rr_loop ps arr q f s) \<and> ready (rr_loop ps arr q f s) = []"
  using assms
proof (induction ps arr q f s rule: rr_loop.induct)
  case (1 processes arr qmap future s)
  show ?case
  proof (cases "ready s = []")
    case True
    then show ?thesis using 1(2) by (subst (1 2) rr_loop.simps) simp
  next
    case False
    have "P (rr_body processes arr qmap future s)" using 1(3)[OF 1(2) False] .
    from 1(1)[OF False this 1(3)] False show ?thesis
      by (subst (1 2) rr_loop.simps) simp
  qed
qed

lemma jump_now: "now s \<le> now (jump_to_next f s)"
  by (simp add: jump_to_next_def Let_def)

lemma idle_jump_now: "now s \<le> now (idle_jump f s)"
  using jump_now[of s f] by (simp add: idle_jump_def)

lemma skip_now: "now s \<le> now (skip_finished f s)"
  using idle_jump_now[of "push_arrivals_up_to f (now s) s" f] by (simp add: skip_finished_def)

lemma emit_timeline:
  "timeline (emit_slice q p s) =
     timeline s @ [(p, now s, now s + max 1 (min (dict_get q p 1) (dict_get (rem s) p 0)))]"
  "now (emit_slice q p s) = now s + max 1 (min (dict_get q p 1) (dict_get (rem s) p 0))"
  by (simp_all add: emit_slice_def Let_def)

lemma requeue_fields [simp]:
  "rem (requeue p s) = rem s" "now (requeue p s) = now s" "timeline (requeue p s) = timeline s"
  "future_idx (requeue p s) = future_idx s"
  by (simp_all add: requeue_def)

lemma run_slice_timeline [simp]:
  "timeline (run_slice ps arr q f p s) = timeline (emit_slice q p s)"
  by (simp add: run_slice_def Let_def)

lemma run_slice_now: "now (emit_slice q p s) \<le> now (run_slice ps arr q f p s)"
  using idle_jump_now[of "rescan ps arr (requeue p (push_arrivals_up_to f (now (emit_slice q p s)) (emit_slice q p s)))" f]
  by (simp add: run_slice_def Let_def)

text \<open>Every slice ends after it starts and no later than \<open>now\<close>; starts are sorted.\<close>

definition slices_ok :: "'p rr_state \<Rightarrow> bool" where
  "slices_ok s \<longleftrightarrow>
     (\<forall>(p, a, b) \<in> set (timeline s). a < b \<and> b \<le> now s)
     \<and> sorted (map (\<lambda>(p, a, b). a) (timeline s))"

lemma slices_ok_body:
  assumes "slices_ok s"
  shows "slices_ok (rr_body ps arr q f s)"
proof (cases "ready s")
  case Nil
  then show ?thesis using assms by (simp add: rr_body_def)
next
  case (Cons p rest)
  let ?s0 = "s\<lparr>ready := rest\<rparr>"
  have ok0: "slices_ok ?s0" using assms by (simp add: slices_ok_def)
  show ?thesis
  proof (cases "dict_get (rem s) p 0 \<le> 0")
    case True
    then have "rr_body ps arr q f s = skip_finished f ?s0" by (simp add: rr_body_def Cons)
    moreover have "slices_ok (skip_finished f ?s0)"
      using ok0 skip_now[of ?s0 f] by (fastforce simp: slices_ok_def)
    ultimately show ?thesis by simp
  next
    case False
    then have body: "rr_body ps arr q f s = run_slice ps arr q f p ?s0"
      by (simp add: rr_body_def Cons)
    let ?e = "emit_slice q p ?s0"
    have e: "slices_ok ?e"
      using ok0 by (fastforce simp: slices_ok_def emit_timeline sorted_append)
    have "slices_ok (run_slice ps arr q f p ?s0)"
      using e run_slice_now[of q p ?s0 ps arr f] by (fastforce simp: slices_ok_def)
    then show ?thesis using body by simp
  qed
qed

lemma slices_ok_init: "slices_ok (rr_init rem0 f)"
  by (simp add: slices_ok_def rr_init_def Let_def)

lemma slices_ok_final: "slices_ok (rr_final ps bursts quanta arrivals)"
  unfolding rr_final_def Let_def
  using rr_loop_invariant[of slices_ok, OF slices_ok_init slices_ok_body] by blast

subsection \<open>The ready queue invariant and the iteration bound\<close>

text \<open>The arrivals not yet consumed, and the static facts about the sorted arrival list.\<close>

definition pending :: "(int \<times> 'p) list \<Rightarrow> 'p rr_state \<Rightarrow> (int \<times> 'p) list" where
  "pending f s = drop (future_idx s) f"

definition future_ok :: "'p list \<Rightarrow> ('p \<rightharpoonup> int) \<Rightarrow> (int \<times> 'p) list \<Rightarrow> bool" where
  "future_ok ps arr f \<longleftrightarrow>
     sorted (map fst f) \<and> (\<forall>(t, p) \<in> set f. p \<in> set ps \<and> dict_get arr p 0 = t)"

text \<open>
  The queue invariant: the ready queue has no duplicates, holds only known processes that
  have arrived and still owe work, and no queued process has an arrival still pending.
\<close>

definition queue_inv :: "'p list \<Rightarrow> ('p \<rightharpoonup> int) \<Rightarrow> (int \<times> 'p) list \<Rightarrow> 'p rr_state \<Rightarrow> bool" where
  "queue_inv ps arr f s \<longleftrightarrow>
     distinct (ready s)
     \<and> (\<forall>p \<in> set (ready s). p \<in> set ps \<and> 0 < dict_get (rem s) p 0 \<and> dict_get arr p 0 \<le> now s)
     \<and> (\<forall>(t, p) \<in> set (pending f s). p \<notin> set (ready s))
     \<and> (\<forall>p. 0 \<le> dict_get (rem s) p 0)"

definition late :: "(int \<times> 'p) list \<Rightarrow> int \<Rightarrow> 'p rr_state \<Rightarrow> bool" where
  "late f t s \<longleftrightarrow> (\<forall>(u, p) \<in> set (pending f s). t < u)"

lemma pending_step:
  "future_idx s < length f \<Longrightarrow> pending f s = f ! future_idx s # pending f (admit_next f s)"
  by (simp add: pending_def Cons_nth_drop_Suc)

lemma pending_sorted: "sorted (map fst f) \<Longrightarrow> sorted (map fst (pending f s))"
  by (simp add: pending_def drop_map[symmetric])

lemma pending_subset_future: "set (pending f s) \<subseteq> set f"
  by (simp add: pending_def set_drop_subset)

lemma push_pending_subset: "set (pending f (push_arrivals_up_to f t s)) \<subseteq> set (pending f s)"
proof (induction f t s rule: push_arrivals_up_to.induct)
  case (1 future t s)
  show ?case
    using 1 pending_step[of s future] by (subst push_arrivals_up_to.simps) auto
qed

lemma push_late: "sorted (map fst f) \<Longrightarrow> late f t (push_arrivals_up_to f t s)"
proof (induction f t s rule: push_arrivals_up_to.induct)
  case (1 future t s)
  show ?case
  proof (cases "future_idx s < length future \<and> fst (future ! future_idx s) \<le> t")
    case True
    then show ?thesis using 1 by (subst push_arrivals_up_to.simps) simp
  next
    case False
    have "late future t s"
    proof (cases "future_idx s < length future")
      case True
      with False have gt: "t < fst (future ! future_idx s)" by simp
      have "sorted (map fst (future ! future_idx s # pending future (admit_next future s)))"
        using pending_sorted[OF 1(2), of s] pending_step[OF True] by simp
      then show ?thesis
        using gt pending_step[OF True] by (fastforce simp: late_def)
    next
      case False
      then show ?thesis by (simp add: late_def pending_def)
    qed
    then show ?thesis using False by (subst push_arrivals_up_to.simps) auto
  qed
qed

lemma push_ready_new:
  "set (ready (push_arrivals_up_to f t s))
     \<subseteq> set (ready s) \<union> {p. \<exists>u. (u, p) \<in> set (pending f s) \<and> u \<le> t \<and> 0 < dict_get (rem s) p 0}"
proof (induction f t s rule: push_arrivals_up_to.induct)
  case (1 future t s)
  show ?case
  proof (cases "future_idx s < length future \<and> fst (future ! future_idx s) \<le> t")
    case True
    have a: "set (ready (admit_next future s))
               \<subseteq> set (ready s) \<union> {p. \<exists>u. (u, p) \<in> set (pending future s) \<and> u \<le> t \<and> 0 < dict_get (rem s) p 0}"
    proof -
      obtain u p where e: "future ! future_idx s = (u, p)" by (cases "future ! future_idx s")
      have "(u, p) \<in> set (pending future s)"
        using True pending_step[of s future] e by simp
      then show ?thesis using True e by (auto simp: admit_next_def Let_def)
    qed
    have b: "set (pending future (admit_next future s)) \<subseteq> set (pending future s)"
      using True pending_step[of s future] by auto
    show ?thesis
      using 1[OF True] a b True by (subst push_arrivals_up_to.simps) (simp, blast)
  next
    case False
    then show ?thesis by (subst push_arrivals_up_to.simps) auto
  qed
qed

lemma push_ready_grows: "set (ready s) \<subseteq> set (ready (push_arrivals_up_to f t s))"
proof (induction f t s rule: push_arrivals_up_to.induct)
  case (1 future t s)
  have "set (ready s) \<subseteq> set (ready (admit_next future s))"
    by (auto simp: admit_next_def Let_def)
  then show ?case
    using 1 by (subst push_arrivals_up_to.simps) auto
qed

lemma push_distinct: "distinct (ready s) \<Longrightarrow> distinct (ready (push_arrivals_up_to f t s))"
proof (induction f t s rule: push_arrivals_up_to.induct)
  case (1 future t s)
  have "distinct (ready (admit_next future s))"
    using 1(2) by (auto simp: admit_next_def Let_def)
  then show ?case
    using 1 by (subst push_arrivals_up_to.simps) auto
qed

lemma queue_inv_push:
  assumes fo: "future_ok ps arr f" and qi: "queue_inv ps arr f s" and t: "t \<le> now s"
  shows "queue_inv ps arr f (push_arrivals_up_to f t s)"
proof -
  let ?s' = "push_arrivals_up_to f t s"
  have srt: "sorted (map fst f)" using fo by (simp add: future_ok_def)
  have new: "\<And>p. p \<in> set (ready ?s') \<Longrightarrow> p \<notin> set (ready s) \<Longrightarrow>
               p \<in> set ps \<and> 0 < dict_get (rem s) p 0 \<and> dict_get arr p 0 \<le> t"
  proof -
    fix p assume "p \<in> set (ready ?s')" "p \<notin> set (ready s)"
    then obtain u where u: "(u, p) \<in> set (pending f s)" "u \<le> t" "0 < dict_get (rem s) p 0"
      using push_ready_new[of f t s] by auto
    then have "(u, p) \<in> set f" using pending_subset_future[of f s] by auto
    then show "p \<in> set ps \<and> 0 < dict_get (rem s) p 0 \<and> dict_get arr p 0 \<le> t"
      using fo u by (auto simp: future_ok_def)
  qed
  have d: "distinct (ready ?s')" using qi push_distinct by (auto simp: queue_inv_def)
  have r: "\<forall>p \<in> set (ready ?s'). p \<in> set ps \<and> 0 < dict_get (rem ?s') p 0 \<and> dict_get arr p 0 \<le> now ?s'"
    using qi new t by (fastforce simp: queue_inv_def)
  have pe: "\<forall>(u, p) \<in> set (pending f ?s'). p \<notin> set (ready ?s')"
  proof (clarify)
    fix u p assume up: "(u, p) \<in> set (pending f ?s')" and pr: "p \<in> set (ready ?s')"
    have up0: "(u, p) \<in> set (pending f s)" using up push_pending_subset[of f t s] by auto
    then have notold: "p \<notin> set (ready s)" using qi by (auto simp: queue_inv_def)
    have "(u, p) \<in> set f" using up0 pending_subset_future[of f s] by auto
    then have "dict_get arr p 0 = u" using fo by (auto simp: future_ok_def)
    moreover have "dict_get arr p 0 \<le> t" using new[OF pr notold] by simp
    moreover have "t < u" using push_late[OF srt, of t s] up by (auto simp: late_def)
    ultimately show False by simp
  qed
  show ?thesis using d r pe qi by (simp add: queue_inv_def)
qed


lemma queue_inv_now:
  "queue_inv ps arr f s \<Longrightarrow> now s \<le> t \<Longrightarrow> queue_inv ps arr f (s\<lparr>now := t\<rparr>)"
  by (fastforce simp: queue_inv_def pending_def)

lemma queue_inv_jump:
  assumes "future_ok ps arr f" "queue_inv ps arr f s"
  shows "queue_inv ps arr f (jump_to_next f s)"
  unfolding jump_to_next_def Let_def
  by (rule queue_inv_push[OF assms(1)]) (auto intro: queue_inv_now[OF assms(2)])

lemma queue_inv_idle_jump:
  assumes "future_ok ps arr f" "queue_inv ps arr f s"
  shows "queue_inv ps arr f (idle_jump f s)"
  using assms queue_inv_jump[OF assms] by (simp add: idle_jump_def)

lemma pending_rescan [simp]: "pending f (rescan qs arr s) = pending f s"
  by (simp add: pending_def)

lemma queue_inv_rescan:
  assumes fo: "future_ok ps arr f"
  shows "queue_inv ps arr f s \<Longrightarrow> late f (now s) s \<Longrightarrow> set qs \<subseteq> set ps
           \<Longrightarrow> queue_inv ps arr f (rescan qs arr s)"
proof (induction qs arbitrary: s)
  case Nil
  then show ?case by simp
next
  case (Cons p qs)
  let ?s1 = "s\<lparr>ready := ready s @ [p]\<rparr>"
  show ?case
  proof (cases "dict_get (rem s) p 0 > 0 \<and> dict_get arr p 0 \<le> now s \<and> p \<notin> set (ready s)")
    case True
    have notpend: "\<And>u. (u, p) \<notin> set (pending f s)"
    proof
      fix u assume up: "(u, p) \<in> set (pending f s)"
      then have "(u, p) \<in> set f" using pending_subset_future[of f s] by auto
      then have "dict_get arr p 0 = u" using fo by (auto simp: future_ok_def)
      moreover have "now s < u" using Cons.prems(2) up by (auto simp: late_def)
      ultimately show False using True by simp
    qed
    have "queue_inv ps arr f ?s1"
      using Cons.prems(1,3) True notpend by (auto simp: queue_inv_def pending_def)
    moreover have "late f (now ?s1) ?s1" using Cons.prems(2) by (simp add: late_def pending_def)
    ultimately have "queue_inv ps arr f (rescan qs arr ?s1)"
      using Cons.IH[of ?s1] Cons.prems(3) by simp
    then show ?thesis using True by simp
  next
    case False
    then show ?thesis using Cons.IH[OF Cons.prems(1,2)] Cons.prems(3) by auto
  qed
qed

lemma late_requeue [simp]: "late f t (requeue p s) = late f t s"
  by (simp add: late_def pending_def requeue_def)

lemma queue_inv_run_slice:
  assumes fo: "future_ok ps arr f" and qi: "queue_inv ps arr f s"
    and rd: "ready s = p # rest"
  shows "queue_inv ps arr f (run_slice ps arr q f p (s\<lparr>ready := rest\<rparr>))"
proof -
  let ?s0 = "s\<lparr>ready := rest\<rparr>"
  let ?s1 = "emit_slice q p ?s0"
  let ?s2 = "push_arrivals_up_to f (now ?s1) ?s1"
  let ?s3 = "requeue p ?s2"
  have srt: "sorted (map fst f)" using fo by (simp add: future_ok_def)
  have p: "p \<in> set ps" "0 < dict_get (rem s) p 0" "dict_get arr p 0 \<le> now s" "p \<notin> set rest"
    using qi rd by (auto simp: queue_inv_def)
  have pnot: "\<And>u. (u, p) \<notin> set (pending f s)"
    using qi rd by (auto simp: queue_inv_def)
  have now1: "now s \<le> now ?s1" by (simp add: emit_slice_def Let_def)
  have rem1: "\<And>x. x \<noteq> p \<Longrightarrow> dict_get (rem ?s1) x 0 = dict_get (rem s) x 0"
    by (simp add: emit_slice_def Let_def dict_get_def)
  have remp: "0 \<le> dict_get (rem ?s1) p 0"
    using p(2) by (simp add: emit_slice_def Let_def dict_get_def)
  have pend1: "pending f ?s1 = pending f s" by (simp add: pending_def)
  have q1: "queue_inv ps arr f ?s1"
    unfolding queue_inv_def
  proof (intro conjI ballI allI)
    show "distinct (ready ?s1)" using qi rd by (simp add: queue_inv_def)
  next
    fix x assume "x \<in> set (ready ?s1)"
    then have x: "x \<in> set rest" by simp
    then have "x \<noteq> p" using p(4) by auto
    then show "x \<in> set ps" "0 < dict_get (rem ?s1) x 0" "dict_get arr x 0 \<le> now ?s1"
      using qi rd x rem1 now1 by (auto simp: queue_inv_def)
  next
    fix x assume "x \<in> set (pending f ?s1)"
    then show "case x of (t, y) \<Rightarrow> y \<notin> set (ready ?s1)"
      using qi rd pend1 by (auto simp: queue_inv_def)
  next
    fix x show "0 \<le> dict_get (rem ?s1) x 0"
      using qi remp rem1[of x] by (cases "x = p") (auto simp: queue_inv_def)
  qed
  have q2: "queue_inv ps arr f ?s2" by (rule queue_inv_push[OF fo q1]) simp
  have l2: "late f (now ?s2) ?s2" using push_late[OF srt, of "now ?s1" ?s1] by simp
  have pnot2: "p \<notin> set (ready ?s2)"
  proof
    assume "p \<in> set (ready ?s2)"
    then have "p \<in> set (ready ?s1) \<or> (\<exists>u. (u, p) \<in> set (pending f ?s1))"
      using push_ready_new[of f "now ?s1" ?s1] by auto
    then show False using p(4) pnot pend1 by simp
  qed
  have pend2: "\<And>u. (u, p) \<notin> set (pending f ?s2)"
    using push_pending_subset[of f "now ?s1" ?s1] pnot pend1 by auto
  have q3: "queue_inv ps arr f ?s3"
  proof (cases "0 < dict_get (rem ?s2) p 0")
    case True
    then have "?s3 = ?s2\<lparr>ready := ready ?s2 @ [p]\<rparr>" by (simp add: requeue_def)
    moreover have "queue_inv ps arr f (?s2\<lparr>ready := ready ?s2 @ [p]\<rparr>)"
      using q2 pnot2 pend2 p(1,3) now1 True by (auto simp: queue_inv_def pending_def)
    ultimately show ?thesis by simp
  next
    case False
    then show ?thesis using q2 by (simp add: requeue_def)
  qed
  have l3: "late f (now ?s3) ?s3" using l2 by simp
  have "queue_inv ps arr f (idle_jump f (rescan ps arr ?s3))"
    by (intro queue_inv_idle_jump[OF fo] queue_inv_rescan[OF fo q3 l3]) simp
  then show ?thesis using q3 by (simp add: run_slice_def Let_def)
qed

lemma queue_inv_body:
  assumes "future_ok ps arr f" "queue_inv ps arr f s"
  shows "queue_inv ps arr f (rr_body ps arr q f s)"
proof (cases "ready s")
  case Nil
  then show ?thesis using assms by (simp add: rr_body_def)
next
  case (Cons p rest)
  then have "0 < dict_get (rem s) p 0" using assms(2) by (simp add: queue_inv_def)
  then have "rr_body ps arr q f s = run_slice ps arr q f p (s\<lparr>ready := rest\<rparr>)"
    by (simp add: rr_body_def Cons)
  then show ?thesis using queue_inv_run_slice[OF assms Cons] by simp
qed


lemma future_ok_build:
  "future_ok ps (coerce_arr ps arrivals) (build_future ps (coerce_arr ps arrivals))"
proof -
  let ?xs = "map (\<lambda>p. (dict_get (coerce_arr ps arrivals) p 0, p)) ps"
  have "sorted (sort ?xs)" by simp
  then have "sorted_wrt (\<lambda>x y. fst x \<le> fst y) (sort ?xs)"
    by (rule sorted_wrt_mono_rel[rotated]) (auto simp: less_eq_prod_def)
  then have "sorted (map fst (sort ?xs))" by (simp add: sorted_wrt_map)
  then show ?thesis by (auto simp: future_ok_def build_future_def)
qed

lemma rem_coerce_nonneg: "0 \<le> dict_get (coerce_rem ps bursts) p 0"
  by (simp add: coerce_rem_def dict_get_def)

lemma queue_inv_init:
  assumes fo: "future_ok ps arr f" and nn: "\<And>p. 0 \<le> dict_get rem0 p 0"
  shows "queue_inv ps arr f (rr_init rem0 f)"
proof -
  let ?s0 = "\<lparr>rem = rem0, future_idx = 0, now = 0, timeline = [], ready = []\<rparr>"
  let ?s1 = "push_arrivals_up_to f (now ?s0) ?s0"
  have q0: "queue_inv ps arr f ?s0" using nn by (simp add: queue_inv_def)
  have q1: "queue_inv ps arr f ?s1" by (rule queue_inv_push[OF fo q0]) simp
  show ?thesis
  proof (cases "ready ?s1 = [] \<and> future_idx ?s1 < length f")
    case True
    let ?s2 = "?s1\<lparr>now := fst (f ! future_idx ?s1)\<rparr>"
    have "queue_inv ps arr f ?s2" using q1 True by (simp add: queue_inv_def pending_def)
    then have "queue_inv ps arr f (push_arrivals_up_to f (now ?s2) ?s2)"
      by (rule queue_inv_push[OF fo]) simp
    then show ?thesis using True by (simp add: rr_init_def Let_def)
  next
    case False
    then show ?thesis using q1 by (auto simp: rr_init_def Let_def)
  qed
qed

text \<open>The number of iterations the main loop makes from a state (same recursion).\<close>

function rr_loop_count ::
  "'p list \<Rightarrow> ('p \<rightharpoonup> int) \<Rightarrow> ('p \<rightharpoonup> int) \<Rightarrow> (int \<times> 'p) list \<Rightarrow> 'p rr_state \<Rightarrow> nat" where
  "rr_loop_count procs arr qmap future s =
     (if ready s = [] then 0
      else Suc (rr_loop_count procs arr qmap future (rr_body procs arr qmap future s)))"
  by pat_completeness auto
termination
proof (relation "measures [\<lambda>(ps, arr, q, f, s). work ps f s, \<lambda>(ps, arr, q, f, s). backlog f s]")
  show "wf (measures [\<lambda>(ps, arr, q, f, s). work ps f s, \<lambda>(ps, arr, q, f, s). backlog f s])"
    by simp
next
  fix procs :: "'p list" and arr qmap :: "'p \<rightharpoonup> int" and future and s :: "'p rr_state"
  assume "ready s \<noteq> []"
  from rr_body_decreases[OF this, of procs future arr qmap]
  show "((procs, arr, qmap, future, rr_body procs arr qmap future s),
         (procs, arr, qmap, future, s))
        \<in> measures [\<lambda>(ps, arr, q, f, s). work ps f s, \<lambda>(ps, arr, q, f, s). backlog f s]"
    by auto
qed

declare rr_loop_count.simps [simp del]

definition owed :: "'p list \<Rightarrow> 'p rr_state \<Rightarrow> nat" where
  "owed ps s = (\<Sum>p \<in> set ps. nat (dict_get (rem s) p 0))"

lemma rr_loop_funpow:
  "rr_loop ps arr q f s = ((rr_body ps arr q f) ^^ (rr_loop_count ps arr q f s)) s"
proof (induction ps arr q f s rule: rr_loop.induct)
  case (1 procs arr qmap future s)
  show ?case
  proof (cases "ready s = []")
    case True
    then show ?thesis
      by (subst rr_loop.simps, subst rr_loop_count.simps) simp
  next
    case False
    then show ?thesis
      using 1[OF False]
      by (subst rr_loop.simps, subst rr_loop_count.simps) (simp add: funpow_swap1)
  qed
qed

lemma owed_body:
  assumes qi: "queue_inv ps arr f s" and ne: "ready s \<noteq> []"
  shows "owed ps (rr_body ps arr q f s) < owed ps s"
    and "length (timeline (rr_body ps arr q f s)) = Suc (length (timeline s))"
proof -
  obtain p rest where rd: "ready s = p # rest" using ne by (cases "ready s") auto
  have p: "p \<in> set ps" "0 < dict_get (rem s) p 0" using qi rd by (auto simp: queue_inv_def)
  let ?s0 = "s\<lparr>ready := rest\<rparr>"
  have body: "rr_body ps arr q f s = run_slice ps arr q f p ?s0"
    using p(2) by (simp add: rr_body_def rd)
  let ?g = "\<lambda>x. nat (dict_get (rem s) x 0)"
  let ?g' = "\<lambda>x. nat (dict_get (rem (emit_slice q p ?s0)) x 0)"
  have le: "\<And>x. ?g' x \<le> ?g x"
    using p(2) by (auto simp: emit_slice_def Let_def dict_get_def)
  have lt: "?g' p < ?g p"
    using p(2) by (auto simp: emit_slice_def Let_def dict_get_def)
  have "sum ?g' (set ps) < sum ?g (set ps)"
    using p(1) le lt by (intro sum_strict_mono_ex1) auto
  then show "owed ps (rr_body ps arr q f s) < owed ps s"
    by (simp add: owed_def body)
  show "length (timeline (rr_body ps arr q f s)) = Suc (length (timeline s))"
    by (simp add: body emit_timeline)
qed

lemma rr_loop_count_bound:
  assumes fo: "future_ok ps arr f"
  shows "queue_inv ps arr f s \<Longrightarrow>
     rr_loop_count ps arr q f s \<le> owed ps s
     \<and> length (timeline (rr_loop ps arr q f s)) = length (timeline s) + rr_loop_count ps arr q f s"
  using fo
proof (induction ps arr q f s rule: rr_loop.induct)
  case (1 procs arr qmap future s)
  show ?case
  proof (cases "ready s = []")
    case True
    then show ?thesis
      by (subst rr_loop.simps, subst (1 2) rr_loop_count.simps) simp
  next
    case False
    have qb: "queue_inv procs arr future (rr_body procs arr qmap future s)"
      using queue_inv_body[OF 1(3) 1(2)] .
    from 1(1)[OF False qb 1(3)] owed_body[OF 1(2) False, of qmap] False
    show ?thesis
      by (subst rr_loop.simps, subst (1 2) rr_loop_count.simps) simp
  qed
qed

lemma rr_init_fields [simp]: "rem (rr_init rem0 f) = rem0" "timeline (rr_init rem0 f) = []"
  by (simp_all add: rr_init_def Let_def)

definition total_burst :: "'p list \<Rightarrow> ('p \<rightharpoonup> int) \<Rightarrow> nat" where
  "total_burst ps bursts = (\<Sum>p \<in> set ps. nat (max 0 (dict_get bursts p 0)))"

definition rr_iterations ::
  "'p::linorder list \<Rightarrow> ('p \<rightharpoonup> int) \<Rightarrow> ('p \<rightharpoonup> int) \<Rightarrow> ('p \<rightharpoonup> int) \<Rightarrow> nat" where
  "rr_iterations ps bursts quanta arrivals =
     (let rem0 = coerce_rem ps bursts;
          arr = coerce_arr ps arrivals;
          qmap = coerce_qmap ps quanta;
          future = build_future ps arr
      in rr_loop_count ps arr qmap future (rr_init rem0 future))"

definition rr_run ::
  "nat \<Rightarrow> 'p::linorder list \<Rightarrow> ('p \<rightharpoonup> int) \<Rightarrow> ('p \<rightharpoonup> int) \<Rightarrow> ('p \<rightharpoonup> int) \<Rightarrow> 'p rr_state" where
  "rr_run n ps bursts quanta arrivals =
     (let rem0 = coerce_rem ps bursts;
          arr = coerce_arr ps arrivals;
          qmap = coerce_qmap ps quanta;
          future = build_future ps arr
      in ((rr_body ps arr qmap future) ^^ n) (rr_init rem0 future))"

lemma queue_inv_start:
  "queue_inv ps (coerce_arr ps arrivals) (build_future ps (coerce_arr ps arrivals))
     (rr_init (coerce_rem ps bursts) (build_future ps (coerce_arr ps arrivals)))"
  by (rule queue_inv_init[OF future_ok_build]) (rule rem_coerce_nonneg)

lemma owed_start: "owed ps (rr_init (coerce_rem ps bursts) f) = total_burst ps bursts"
  by (simp add: owed_def total_burst_def coerce_rem_def dict_get_def)

subsection \<open>Accounting invariant and the metrics of a simulated timeline\<close>

text \<open>The completion map that the first loop of \<open>compute_metrics\<close> builds.\<close>

definition completion_of :: "'p slice list \<Rightarrow> ('p \<rightharpoonup> int)" where
  "completion_of tml = fst (scan_timeline tml (Map.empty, None, 0))"

lemma dict_get_upd [simp]:
  "dict_get (m(k \<mapsto> v)) x d = (if x = k then v else dict_get m x d)"
  by (simp add: dict_get_def)

lemma scan_timeline_append:
  "scan_timeline (xs @ ys) acc = scan_timeline ys (scan_timeline xs acc)"
  by (induction xs acc rule: scan_timeline.induct) auto

lemma completion_of_snoc:
  "completion_of (tml @ [(p, a, b)])
     = (completion_of tml)(p \<mapsto> max (dict_get (completion_of tml) p 0) b)"
  by (cases "scan_timeline tml (Map.empty, None, 0)")
     (simp add: completion_of_def scan_timeline_append)

lemma completion_of_Nil [simp]: "completion_of [] = Map.empty"
  by (simp add: completion_of_def)

lemma dom_completion_of: "dom (completion_of tml) = fst ` set tml"
proof (induction tml rule: rev_induct)
  case Nil
  show ?case by simp
next
  case (snoc x xs)
  obtain p a b where x: "x = (p, a, b)" by (cases x)
  have "dom ((completion_of xs)(p \<mapsto> v)) = insert p (dom (completion_of xs))" for v
    by simp
  then have "dom (completion_of (xs @ [x])) = insert p (dom (completion_of xs))"
    unfolding x completion_of_snoc by blast
  then show ?case using snoc by (simp add: x)
qed

lemma completion_of_None_iff: "completion_of tml p = None \<longleftrightarrow> p \<notin> fst ` set tml"
  using dom_completion_of[of tml] by (metis domIff)

lemma slice_total_Nil [simp]: "slice_total p [] = 0"
  by (simp add: slice_total_def)

lemma slice_total_snoc:
  "slice_total p (tml @ [(x, a, b)]) = slice_total p tml + (if x = p then b - a else 0)"
  by (simp add: slice_total_def)

lemma slice_total_none: "p \<notin> fst ` set tml \<Longrightarrow> slice_total p tml = 0"
proof -
  assume "p \<notin> fst ` set tml"
  then have "filter (\<lambda>(x, a, b). x = p) tml = []"
    by (force simp: filter_empty_conv)
  then show ?thesis by (simp add: slice_total_def)
qed

lemma slice_total_nonneg: "(\<forall>(x, a, b) \<in> set tml. a < b) \<Longrightarrow> 0 \<le> slice_total p tml"
proof (induction tml rule: rev_induct)
  case Nil
  then show ?case by simp
next
  case (snoc y ys)
  obtain x c d where y: "y = (x, c, d)" by (cases y)
  show ?case using snoc by (auto simp: y slice_total_snoc)
qed

lemma slice_total_pos:
  "(p, a, b) \<in> set tml \<Longrightarrow> (\<forall>(x, a, b) \<in> set tml. a < b) \<Longrightarrow> 0 < slice_total p tml"
proof (induction tml rule: rev_induct)
  case Nil
  then show ?case by simp
next
  case (snoc y ys)
  obtain x c d where y: "y = (x, c, d)" by (cases y)
  have all: "\<forall>(x, a, b) \<in> set ys. a < b" and cd: "c < d"
    using snoc.prems(2) by (auto simp: y)
  have nn: "0 \<le> slice_total p ys" by (rule slice_total_nonneg[OF all])
  show ?case
  proof (cases "(p, a, b) \<in> set ys")
    case True
    then have "0 < slice_total p ys" using snoc.IH all by blast
    then show ?thesis using cd by (simp add: y slice_total_snoc)
  next
    case False
    then have "x = p" using snoc.prems(1) by (auto simp: y)
    then show ?thesis using nn cd by (simp add: y slice_total_snoc)
  qed
qed

text \<open>
  The accounting invariant: time is non-negative, only known processes have slices, the
  slices of a process plus its remaining burst make up its coerced burst, a started
  process that still owes work is queued, and a process's last end tick is at least its
  arrival plus the ticks it has received.
\<close>

definition tl_inv :: "'p list \<Rightarrow> ('p \<rightharpoonup> int) \<Rightarrow> ('p \<rightharpoonup> int) \<Rightarrow> 'p rr_state \<Rightarrow> bool" where
  "tl_inv ps arr B s \<longleftrightarrow>
     0 \<le> now s
     \<and> fst ` set (timeline s) \<subseteq> set ps
     \<and> (\<forall>p. slice_total p (timeline s) + dict_get (rem s) p 0 = dict_get B p 0)
     \<and> (\<forall>p \<in> fst ` set (timeline s). 0 < dict_get (rem s) p 0 \<longrightarrow> p \<in> set (ready s))
     \<and> (\<forall>p c. completion_of (timeline s) p = Some c \<longrightarrow>
            c \<le> now s \<and> slice_total p (timeline s) \<le> c - dict_get arr p 0)"

lemma requeue_ready_grows: "set (ready s) \<subseteq> set (ready (requeue p s))"
  by (auto simp: requeue_def)

lemma rescan_ready_grows: "set (ready s) \<subseteq> set (ready (rescan qs arr s))"
proof (induction qs arbitrary: s)
  case Nil
  show ?case by simp
next
  case (Cons x qs)
  show ?case
    using Cons[of s] Cons[of "s\<lparr>ready := ready s @ [x]\<rparr>"] by auto
qed

lemma jump_ready_grows: "set (ready s) \<subseteq> set (ready (jump_to_next f s))"
  using push_ready_grows[of "s\<lparr>now := max (now s) (fst (f ! future_idx s))\<rparr>" f]
  by (simp add: jump_to_next_def Let_def)

lemma idle_jump_ready_grows: "set (ready s) \<subseteq> set (ready (idle_jump f s))"
  using jump_ready_grows[of s f] by (auto simp: idle_jump_def)

lemma run_slice_ready_grows:
  "set (ready s) \<subseteq> set (ready (run_slice ps arr q f p s))"
  "0 < dict_get (rem (emit_slice q p s)) p 0 \<Longrightarrow> p \<in> set (ready (run_slice ps arr q f p s))"
proof -
  let ?s1 = "emit_slice q p s"
  let ?s2 = "push_arrivals_up_to f (now ?s1) ?s1"
  let ?s3 = "requeue p ?s2"
  have a: "set (ready s) \<subseteq> set (ready ?s3)"
    using push_ready_grows[of ?s1 f "now ?s1"] requeue_ready_grows[of ?s2 p] by auto
  have b: "set (ready ?s3) \<subseteq> set (ready (run_slice ps arr q f p s))"
    using idle_jump_ready_grows[of "rescan ps arr ?s3" f] rescan_ready_grows[of ?s3 ps arr]
    by (auto simp: run_slice_def Let_def)
  show "set (ready s) \<subseteq> set (ready (run_slice ps arr q f p s))" using a b by blast
  assume "0 < dict_get (rem ?s1) p 0"
  then have "p \<in> set (ready ?s3)" by (simp add: requeue_def)
  then show "p \<in> set (ready (run_slice ps arr q f p s))" using b by blast
qed

lemma tl_inv_run_slice:
  assumes qi: "queue_inv ps arr f s" and ti: "tl_inv ps arr B s" and rd: "ready s = p # rest"
  shows "tl_inv ps arr B (run_slice ps arr q f p (s\<lparr>ready := rest\<rparr>))"
proof -
  let ?s0 = "s\<lparr>ready := rest\<rparr>"
  let ?e = "emit_slice q p ?s0"
  let ?r = "run_slice ps arr q f p ?s0"
  define r0 where "r0 = dict_get (rem s) p 0"
  define use where "use = max 1 (min (dict_get q p 1) r0)"
  have p: "p \<in> set ps" "0 < r0" "dict_get arr p 0 \<le> now s"
    using qi rd by (auto simp: queue_inv_def r0_def)
  have use: "1 \<le> use" "use \<le> r0" using p(2) by (auto simp: use_def)
  have tle: "timeline ?e = timeline s @ [(p, now s, now s + use)]"
    and nowe: "now ?e = now s + use"
    and reme: "rem ?e = (rem s)(p \<mapsto> r0 - use)"
    by (simp_all add: emit_slice_def Let_def use_def r0_def)
  have R1: "rem ?r = rem ?e" by simp
  have R2: "timeline ?r = timeline ?e" by simp
  have R3: "now ?e \<le> now ?r" by (rule run_slice_now)
  have R4: "set rest \<subseteq> set (ready ?r)"
    using run_slice_ready_grows(1)[of ?s0 ps arr q f p] by simp
  have R5: "0 < r0 - use \<Longrightarrow> p \<in> set (ready ?r)"
    using run_slice_ready_grows(2)[of q p ?s0 ps arr f] by (simp add: reme)
  have now0: "0 \<le> now s" using ti by (simp add: tl_inv_def)
  have T1: "\<And>x. slice_total x (timeline s) + dict_get (rem s) x 0 = dict_get B x 0"
    using ti by (simp add: tl_inv_def)
  have T4: "\<And>x. x \<in> fst ` set (timeline s) \<Longrightarrow> 0 < dict_get (rem s) x 0 \<Longrightarrow> x \<in> set (ready s)"
    using ti unfolding tl_inv_def by blast
  have T5: "\<And>x c. completion_of (timeline s) x = Some c \<Longrightarrow>
               c \<le> now s \<and> slice_total x (timeline s) \<le> c - dict_get arr x 0"
    using ti by (simp add: tl_inv_def)
  have c1: "0 \<le> now ?r" using now0 use(1) R3 nowe by simp
  have c2: "fst ` set (timeline ?r) \<subseteq> set ps"
    using ti p(1) by (auto simp: R2 tle tl_inv_def)
  have c3: "\<forall>x. slice_total x (timeline ?r) + dict_get (rem ?r) x 0 = dict_get B x 0"
  proof
    fix x show "slice_total x (timeline ?r) + dict_get (rem ?r) x 0 = dict_get B x 0"
      using T1[of x] by (cases "x = p") (simp_all add: R1 R2 tle reme slice_total_snoc r0_def)
  qed
  have c4: "\<forall>x \<in> fst ` set (timeline ?r). 0 < dict_get (rem ?r) x 0 \<longrightarrow> x \<in> set (ready ?r)"
  proof (intro ballI impI)
    fix x assume x: "x \<in> fst ` set (timeline ?r)" and pos: "0 < dict_get (rem ?r) x 0"
    show "x \<in> set (ready ?r)"
    proof (cases "x = p")
      case True
      then show ?thesis using pos R5 by (simp add: R1 reme)
    next
      case False
      then have "x \<in> fst ` set (timeline s)" using x by (auto simp: R2 tle)
      moreover have "0 < dict_get (rem s) x 0" using pos False by (simp add: R1 reme)
      ultimately have "x \<in> set (ready s)" by (rule T4)
      then show ?thesis using False rd R4 by auto
    qed
  qed
  have c5: "\<forall>x c. completion_of (timeline ?r) x = Some c \<longrightarrow>
              c \<le> now ?r \<and> slice_total x (timeline ?r) \<le> c - dict_get arr x 0"
  proof (intro allI impI)
    fix x c assume cx: "completion_of (timeline ?r) x = Some c"
    show "c \<le> now ?r \<and> slice_total x (timeline ?r) \<le> c - dict_get arr x 0"
    proof (cases "x = p")
      case False
      then have "completion_of (timeline s) x = Some c"
        using cx by (simp add: R2 tle completion_of_snoc)
      from T5[OF this] show ?thesis
        using False R3 nowe use(1) by (simp add: R2 tle slice_total_snoc)
    next
      case True
      have cval: "c = max (dict_get (completion_of (timeline s)) p 0) (now s + use)"
        using cx True by (simp add: R2 tle completion_of_snoc)
      show ?thesis
      proof (cases "completion_of (timeline s) p")
        case None
        then have "p \<notin> fst ` set (timeline s)"
          by (simp add: completion_of_None_iff)
        then have st0: "slice_total p (timeline s) = 0" by (rule slice_total_none)
        have "c = now s + use" using cval None now0 use(1) by (simp add: dict_get_def)
        then show ?thesis
          using st0 p(3) R3 nowe True by (simp add: R2 tle slice_total_snoc)
      next
        case (Some c0)
        from T5[OF Some] have c0: "c0 \<le> now s" "slice_total p (timeline s) \<le> c0 - dict_get arr p 0"
          by simp_all
        have "c = now s + use" using cval Some c0(1) use(1) by (simp add: dict_get_def)
        then show ?thesis
          using c0 R3 nowe True by (simp add: R2 tle slice_total_snoc)
      qed
    qed
  qed
  show ?thesis unfolding tl_inv_def using c1 c2 c3 c4 c5 by blast
qed

lemma tl_inv_body:
  assumes "queue_inv ps arr f s" "tl_inv ps arr B s"
  shows "tl_inv ps arr B (rr_body ps arr q f s)"
proof (cases "ready s")
  case Nil
  then show ?thesis using assms by (simp add: rr_body_def)
next
  case (Cons p rest)
  then have "0 < dict_get (rem s) p 0" using assms(1) by (simp add: queue_inv_def)
  then have "rr_body ps arr q f s = run_slice ps arr q f p (s\<lparr>ready := rest\<rparr>)"
    by (simp add: rr_body_def Cons)
  then show ?thesis using tl_inv_run_slice[OF assms Cons] by simp
qed

lemma rr_init_now: "sorted (map fst f) \<Longrightarrow> 0 \<le> now (rr_init rem0 f)"
proof -
  assume srt: "sorted (map fst f)"
  let ?s0 = "\<lparr>rem = rem0, future_idx = 0, now = 0, timeline = [], ready = []\<rparr>"
  let ?s1 = "push_arrivals_up_to f (now ?s0) ?s0"
  show ?thesis
  proof (cases "ready ?s1 = [] \<and> future_idx ?s1 < length f")
    case True
    then have "f ! future_idx ?s1 \<in> set (pending f ?s1)"
      using pending_step[of ?s1 f] by simp
    moreover have "late f 0 ?s1" using push_late[OF srt, of 0 ?s0] by simp
    ultimately have "0 < fst (f ! future_idx ?s1)" by (auto simp: late_def)
    then show ?thesis using True by (simp add: rr_init_def Let_def)
  next
    case False
    then show ?thesis by (auto simp: rr_init_def Let_def)
  qed
qed

lemma tl_inv_init: "sorted (map fst f) \<Longrightarrow> tl_inv ps arr rem0 (rr_init rem0 f)"
  using rr_init_now[of f rem0] by (simp add: tl_inv_def)

text \<open>All three invariants hold of the final state of every run.\<close>

lemma rr_final_inv:
  "queue_inv ps (coerce_arr ps arrivals) (build_future ps (coerce_arr ps arrivals))
      (rr_final ps bursts quanta arrivals)
   \<and> tl_inv ps (coerce_arr ps arrivals) (coerce_rem ps bursts) (rr_final ps bursts quanta arrivals)
   \<and> slices_ok (rr_final ps bursts quanta arrivals)
   \<and> ready (rr_final ps bursts quanta arrivals) = []"
proof -
  let ?arr = "coerce_arr ps arrivals"
  let ?f = "build_future ps ?arr"
  let ?B = "coerce_rem ps bursts"
  let ?P = "\<lambda>s. queue_inv ps ?arr ?f s \<and> tl_inv ps ?arr ?B s \<and> slices_ok s"
  have fo: "future_ok ps ?arr ?f" by (rule future_ok_build)
  then have srt: "sorted (map fst ?f)" by (simp add: future_ok_def)
  have start: "?P (rr_init ?B ?f)"
    using queue_inv_start[of ps arrivals bursts] tl_inv_init[OF srt] slices_ok_init by blast
  have step: "\<And>s. ?P s \<Longrightarrow> ready s \<noteq> [] \<Longrightarrow> ?P (rr_body ps ?arr (coerce_qmap ps quanta) ?f s)"
    using queue_inv_body[OF fo] tl_inv_body slices_ok_body by blast
  show ?thesis
    unfolding rr_final_def Let_def
    using rr_loop_invariant[of ?P, OF start step] by blast
qed

text \<open>A process that receives a slice runs to completion, no earlier than its arrival.\<close>

lemma started_process_finishes:
  assumes "(p, a, b) \<in> set (simulate_rr_with_quanta ps bursts quanta arrivals)"
  shows "p \<in> set ps"
    and "0 < dict_get bursts p 0"
    and "slice_total p (simulate_rr_with_quanta ps bursts quanta arrivals) = dict_get bursts p 0"
    and "\<exists>c. completion_of (simulate_rr_with_quanta ps bursts quanta arrivals) p = Some c
           \<and> dict_get bursts p 0 \<le> c - dict_get arrivals p 0"
proof -
  let ?sF = "rr_final ps bursts quanta arrivals"
  let ?tl = "simulate_rr_with_quanta ps bursts quanta arrivals"
  have tl: "?tl = timeline ?sF" by (simp add: simulate_rr_with_quanta_def)
  have inv: "queue_inv ps (coerce_arr ps arrivals) (build_future ps (coerce_arr ps arrivals)) ?sF"
    "tl_inv ps (coerce_arr ps arrivals) (coerce_rem ps bursts) ?sF" "slices_ok ?sF"
    "ready ?sF = []"
    using rr_final_inv[of ps arrivals bursts quanta] by blast+
  have mem: "p \<in> fst ` set (timeline ?sF)" using assms tl by force
  show pin: "p \<in> set ps" using inv(2) mem by (auto simp: tl_inv_def)
  have "\<not> 0 < dict_get (rem ?sF) p 0" using inv(2,4) mem by (auto simp: tl_inv_def)
  moreover have "0 \<le> dict_get (rem ?sF) p 0" using inv(1) by (simp add: queue_inv_def)
  ultimately have r0: "dict_get (rem ?sF) p 0 = 0" by simp
  have "slice_total p (timeline ?sF) + dict_get (rem ?sF) p 0 = dict_get (coerce_rem ps bursts) p 0"
    using inv(2) by (simp add: tl_inv_def)
  then have st: "slice_total p ?tl = max 0 (dict_get bursts p 0)"
    using r0 pin by (simp add: tl coerce_rem_def dict_get_def)
  have "\<forall>(x, a, b) \<in> set ?tl. a < b"
    using inv(3) by (auto simp: slices_ok_def tl)
  then have "0 < slice_total p ?tl" by (rule slice_total_pos[OF assms])
  then show pos: "0 < dict_get bursts p 0" using st by simp
  then show st': "slice_total p ?tl = dict_get bursts p 0" using st by simp
  obtain c where c: "completion_of (timeline ?sF) p = Some c"
    using mem completion_of_None_iff[of "timeline ?sF" p] by (cases "completion_of (timeline ?sF) p") auto
  then have "slice_total p (timeline ?sF) \<le> c - dict_get (coerce_arr ps arrivals) p 0"
    using inv(2) by (simp add: tl_inv_def)
  then have "dict_get bursts p 0 \<le> c - dict_get arrivals p 0"
    using st' pin by (simp add: tl coerce_arr_def dict_get_def)
  then show "\<exists>c. completion_of ?tl p = Some c \<and> dict_get bursts p 0 \<le> c - dict_get arrivals p 0"
    using c by (simp add: tl)
qed

lemma metrics_loop_other:
  "p \<notin> set qs \<Longrightarrow>
     fst (metrics_loop qs B A C (w, t)) p = w p \<and> snd (metrics_loop qs B A C (w, t)) p = t p"
  by (induction qs arbitrary: w t) (auto simp: Let_def split: option.splits)

lemma metrics_loop_at:
  "p \<in> set qs \<Longrightarrow> C p = Some c \<Longrightarrow>
     fst (metrics_loop qs B A C (w, t)) p = Some (max 0 (c - dict_get A p 0 - dict_get B p 0))
     \<and> snd (metrics_loop qs B A C (w, t)) p = Some (max 0 (c - dict_get A p 0))"
proof (induction qs arbitrary: w t)
  case Nil
  then show ?case by simp
next
  case (Cons x qs)
  show ?case
  proof (cases "p \<in> set qs")
    case True
    then show ?thesis using Cons.IH Cons.prems(2) by (simp add: Let_def split: option.splits)
  next
    case False
    then have "x = p" using Cons.prems(1) by simp
    then show ?thesis
      using False Cons.prems(2) metrics_loop_other[of p qs B A C] by (simp add: Let_def)
  qed
qed

lemma compute_metrics_maps:
  "qs \<noteq> [] \<Longrightarrow> tml \<noteq> [] \<Longrightarrow>
     fst (compute_metrics qs B tml A)
       = fst (metrics_loop qs B A (completion_of tml) (Map.empty, Map.empty))
     \<and> fst (snd (compute_metrics qs B tml A))
       = snd (metrics_loop qs B A (completion_of tml) (Map.empty, Map.empty))"
  by (simp add: compute_metrics_def completion_of_def Let_def split_beta)

section \<open>Verified properties\<close>

text \<open>
  C2 (as the code behaves). For P1(arrival 0, burst 8), P2(arrival 3, burst 5),
  P3(arrival 5, burst 2) and fixed quantum 2, the baseline timeline is
  P1[0,2), P1[2,4), P2[4,6), P1[6,8), P3[8,10), P2[10,12), P1[12,14), P2[14,15):
  the fifth slice gives P3 its whole burst of 2 (nothing is clamped to 1), and the total
  time is 15.
\<close>

theorem baseline_example_timeline:
  "baseline_timeline example_config =
     [(''P1'', 0, 2), (''P1'', 2, 4), (''P2'', 4, 6), (''P1'', 6, 8), (''P3'', 8, 10),
      (''P2'', 10, 12), (''P1'', 12, 14), (''P2'', 14, 15)]
   \<and> baseline_total_time example_config = 15"
  by code_simp

text \<open>
  C2 as stated fails: the timeline does not continue with P3[8,9) after P1[6,8).
\<close>

theorem baseline_example_not_clamped:
  "take 5 (baseline_timeline example_config)
     \<noteq> [(''P1'', 0, 2), (''P1'', 2, 4), (''P2'', 4, 6), (''P1'', 6, 8), (''P3'', 8, 9)]"
  by code_simp

text \<open>
  C4. Every timeline the Round-Robin simulator returns is well-formed, for every input:
  each slice has \<open>end > start\<close>, and the start ticks are non-decreasing in the order of
  emission.
\<close>

theorem timeline_well_formed:
  "(\<forall>(p, a, b) \<in> set (simulate_rr_with_quanta ps bursts quanta arrivals). a < b)
   \<and> sorted (map (\<lambda>(p, a, b). a) (simulate_rr_with_quanta ps bursts quanta arrivals))"
  using slices_ok_final[of ps bursts quanta arrivals]
  by (auto simp: slices_ok_def simulate_rr_with_quanta_def)

theorem timeline_well_formed_witness:
  "(''P3'', 8, 10) \<in> set (simulate_rr_with_quanta [''P1'', ''P2'', ''P3'']
       [''P1'' \<mapsto> 8, ''P2'' \<mapsto> 5, ''P3'' \<mapsto> 2] [''P1'' \<mapsto> 2, ''P2'' \<mapsto> 2, ''P3'' \<mapsto> 2]
       [''P1'' \<mapsto> 0, ''P2'' \<mapsto> 3, ''P3'' \<mapsto> 5])
   \<and> (8::int) < 10"
proof -
  have "(''P3'', 8, 10) \<in> set (simulate_rr_with_quanta [''P1'', ''P2'', ''P3'']
       [''P1'' \<mapsto> 8, ''P2'' \<mapsto> 5, ''P3'' \<mapsto> 2] [''P1'' \<mapsto> 2, ''P2'' \<mapsto> 2, ''P3'' \<mapsto> 2]
       [''P1'' \<mapsto> 0, ''P2'' \<mapsto> 3, ''P3'' \<mapsto> 5])"
    by code_simp
  then show ?thesis
    using timeline_well_formed[of "[''P1'', ''P2'', ''P3'']"
       "[''P1'' \<mapsto> 8, ''P2'' \<mapsto> 5, ''P3'' \<mapsto> 2]" "[''P1'' \<mapsto> 2, ''P2'' \<mapsto> 2, ''P3'' \<mapsto> 2]"
       "[''P1'' \<mapsto> 0, ''P2'' \<mapsto> 3, ''P3'' \<mapsto> 5]"]
    by blast
qed

text \<open>
  C1 at the input P1(arrival 1, burst 0), P2(arrival 2, burst 5), quantum 2. The prologue
  jumps to time 1, where only the zero-burst P1 arrives; the queue stays empty, the main
  loop never starts, and the arrival of P2 is never consumed. The timeline is empty, so
  P2 receives 0 ticks although its coerced burst is 5.
\<close>

theorem zero_burst_arrival_strands_later_process:
  "simulate_rr_with_quanta [''P1'', ''P2''] [''P1'' \<mapsto> 0, ''P2'' \<mapsto> 5]
      [''P1'' \<mapsto> 2, ''P2'' \<mapsto> 2] [''P1'' \<mapsto> 1, ''P2'' \<mapsto> 2] = []
   \<and> slice_total ''P2'' (simulate_rr_with_quanta [''P1'', ''P2''] [''P1'' \<mapsto> 0, ''P2'' \<mapsto> 5]
      [''P1'' \<mapsto> 2, ''P2'' \<mapsto> 2] [''P1'' \<mapsto> 1, ''P2'' \<mapsto> 2]) = 0
   \<and> dict_get (coerce_rem [''P1'', ''P2''] [''P1'' \<mapsto> 0, ''P2'' \<mapsto> 5]) ''P2'' 0 = 5
   \<and> future_idx (rr_final [''P1'', ''P2''] [''P1'' \<mapsto> 0, ''P2'' \<mapsto> 5]
      [''P1'' \<mapsto> 2, ''P2'' \<mapsto> 2] [''P1'' \<mapsto> 1, ''P2'' \<mapsto> 2]) = 1"
  by code_simp

text \<open>
  C10 at the input P1(arrival 0, burst 2), P2(arrival 5, burst 0), P3(arrival 10, burst 3),
  quantum 2. With the zero-burst P2 present the simulation stops after P1[0,2): the idle
  jump lands on P2's arrival, admits nothing and the loop ends, so P3 never runs. With P2
  removed the same configuration yields P1[0,2), P3[10,12), P3[12,13).
\<close>

theorem zero_burst_process_changes_other_slices:
  "simulate_rr_with_quanta [''P1'', ''P2'', ''P3''] [''P1'' \<mapsto> 2, ''P2'' \<mapsto> 0, ''P3'' \<mapsto> 3]
      [''P1'' \<mapsto> 2, ''P2'' \<mapsto> 2, ''P3'' \<mapsto> 2] [''P1'' \<mapsto> 0, ''P2'' \<mapsto> 5, ''P3'' \<mapsto> 10]
     = [(''P1'', 0, 2)]
   \<and> simulate_rr_with_quanta [''P1'', ''P3''] [''P1'' \<mapsto> 2, ''P3'' \<mapsto> 3]
      [''P1'' \<mapsto> 2, ''P3'' \<mapsto> 2] [''P1'' \<mapsto> 0, ''P3'' \<mapsto> 10]
     = [(''P1'', 0, 2), (''P3'', 10, 12), (''P3'', 12, 13)]"
  by code_simp

text \<open>
  C9. The Round-Robin simulator terminates on every input. Its loops are total functions
  (\<open>push_arrivals_up_to\<close> and \<open>rr_loop\<close> are defined with termination proofs that hold
  for every state), and for every id list and every burst, quantum and arrival map the main
  loop stops with an empty queue after a number of iterations that is at most the total
  coerced burst time of the distinct processes; every iteration dequeues a process that
  still owes work and emits exactly one slice for it.
\<close>

theorem rr_terminates_within_total_burst:
  "rr_iterations ps bursts quanta arrivals \<le> total_burst ps bursts
   \<and> rr_final ps bursts quanta arrivals
       = rr_run (rr_iterations ps bursts quanta arrivals) ps bursts quanta arrivals
   \<and> ready (rr_final ps bursts quanta arrivals) = []
   \<and> length (simulate_rr_with_quanta ps bursts quanta arrivals)
       = rr_iterations ps bursts quanta arrivals"
proof -
  let ?arr = "coerce_arr ps arrivals"
  let ?q = "coerce_qmap ps quanta"
  let ?f = "build_future ps ?arr"
  let ?s = "rr_init (coerce_rem ps bursts) ?f"
  have b: "rr_loop_count ps ?arr ?q ?f ?s \<le> owed ps ?s
      \<and> length (timeline (rr_loop ps ?arr ?q ?f ?s))
          = length (timeline ?s) + rr_loop_count ps ?arr ?q ?f ?s"
    by (rule rr_loop_count_bound[OF future_ok_build queue_inv_start])
  have e: "ready (rr_loop ps ?arr ?q ?f ?s) = []"
    using rr_loop_invariant[of "\<lambda>s. True" ?s ps ?arr ?q ?f] by simp
  show ?thesis
    using b e rr_loop_funpow[of ps ?arr ?q ?f ?s]
    by (simp add: rr_iterations_def rr_run_def rr_final_def simulate_rr_with_quanta_def
        Let_def owed_start)
qed

text \<open>
  C3. For every configuration and every process that receives at least one slice in the
  simulated timeline, the maps returned by \<open>compute_metrics\<close> for that timeline satisfy
  \<open>waiting[p] + burst[p] = turnaround[p]\<close>, where \<open>turnaround = max 0 (completion - arrival)\<close>
  and \<open>waiting = max 0 (completion - arrival - burst)\<close> (on integers the rounding is the
  identity). The metrics are those of the timeline the simulator produced for the same
  bursts and arrivals, as in both scenario drivers.
\<close>

theorem waiting_plus_burst_is_turnaround:
  assumes "(p, a, b) \<in> set (simulate_rr_with_quanta ps bursts quanta arrivals)"
  shows "\<exists>w t c.
     fst (compute_metrics ps bursts (simulate_rr_with_quanta ps bursts quanta arrivals) arrivals) p
        = Some w
   \<and> fst (snd (compute_metrics ps bursts (simulate_rr_with_quanta ps bursts quanta arrivals)
        arrivals)) p = Some t
   \<and> w + dict_get bursts p 0 = t
   \<and> completion_of (simulate_rr_with_quanta ps bursts quanta arrivals) p = Some c
   \<and> t = max 0 (c - dict_get arrivals p 0)
   \<and> w = max 0 (c - dict_get arrivals p 0 - dict_get bursts p 0)"
proof -
  let ?tl = "simulate_rr_with_quanta ps bursts quanta arrivals"
  from started_process_finishes[OF assms]
  obtain c where pin: "p \<in> set ps" and pos: "0 < dict_get bursts p 0"
    and c: "completion_of ?tl p = Some c" and le: "dict_get bursts p 0 \<le> c - dict_get arrivals p 0"
    by blast
  have ne: "ps \<noteq> []" "?tl \<noteq> []" using pin assms by auto
  note m = metrics_loop_at[where C = "completion_of ?tl" and B = bursts and A = arrivals
      and w = Map.empty and t = Map.empty, OF pin c]
  show ?thesis
    using compute_metrics_maps[OF ne, of bursts arrivals] m c le pos by simp
qed

theorem waiting_plus_burst_is_turnaround_witness:
  "(''P3'', 8, 10) \<in> set (simulate_rr_with_quanta [''P1'', ''P2'', ''P3'']
       [''P1'' \<mapsto> 8, ''P2'' \<mapsto> 5, ''P3'' \<mapsto> 2] [''P1'' \<mapsto> 2, ''P2'' \<mapsto> 2, ''P3'' \<mapsto> 2]
       [''P1'' \<mapsto> 0, ''P2'' \<mapsto> 3, ''P3'' \<mapsto> 5])
   \<and> (\<exists>w t.
        fst (compute_metrics [''P1'', ''P2'', ''P3''] [''P1'' \<mapsto> 8, ''P2'' \<mapsto> 5, ''P3'' \<mapsto> 2]
          (simulate_rr_with_quanta [''P1'', ''P2'', ''P3'']
             [''P1'' \<mapsto> 8, ''P2'' \<mapsto> 5, ''P3'' \<mapsto> 2] [''P1'' \<mapsto> 2, ''P2'' \<mapsto> 2, ''P3'' \<mapsto> 2]
             [''P1'' \<mapsto> 0, ''P2'' \<mapsto> 3, ''P3'' \<mapsto> 5])
          [''P1'' \<mapsto> 0, ''P2'' \<mapsto> 3, ''P3'' \<mapsto> 5]) ''P3'' = Some w
      \<and> fst (snd (compute_metrics [''P1'', ''P2'', ''P3''] [''P1'' \<mapsto> 8, ''P2'' \<mapsto> 5, ''P3'' \<mapsto> 2]
          (simulate_rr_with_quanta [''P1'', ''P2'', ''P3'']
             [''P1'' \<mapsto> 8, ''P2'' \<mapsto> 5, ''P3'' \<mapsto> 2] [''P1'' \<mapsto> 2, ''P2'' \<mapsto> 2, ''P3'' \<mapsto> 2]
             [''P1'' \<mapsto> 0, ''P2'' \<mapsto> 3, ''P3'' \<mapsto> 5])
          [''P1'' \<mapsto> 0, ''P2'' \<mapsto> 3, ''P3'' \<mapsto> 5])) ''P3'' = Some t
      \<and> w + 2 = t)"
proof -
  have mem: "(''P3'', 8, 10) \<in> set (simulate_rr_with_quanta [''P1'', ''P2'', ''P3'']
       [''P1'' \<mapsto> 8, ''P2'' \<mapsto> 5, ''P3'' \<mapsto> 2] [''P1'' \<mapsto> 2, ''P2'' \<mapsto> 2, ''P3'' \<mapsto> 2]
       [''P1'' \<mapsto> 0, ''P2'' \<mapsto> 3, ''P3'' \<mapsto> 5])"
    by code_simp
  have b: "dict_get [''P1'' \<mapsto> 8, ''P2'' \<mapsto> 5, ''P3'' \<mapsto> (2::int)] ''P3'' 0 = 2"
    by (simp add: dict_get_def)
  show ?thesis
    using mem waiting_plus_burst_is_turnaround[OF mem] unfolding b by blast
qed

end
